theory Spec2Isabelle
  imports Main
begin

section \<open>Type definitions\<close>

text \<open>
  The types of \<^verbatim>\<open>gameOfLife.ts\<close>.  Coordinates are JavaScript numbers (IEEE 754
  doubles) that hold integers (grid positions); the model keeps the integer a coordinate
  holds.  Comparison with \<^verbatim>\<open>===\<close> is equality of these integers.  Addition is not
  integer addition: the sum is rounded to a double, see \<open>numberAdd\<close> below.  Numbers
  that are not integers, \<^verbatim>\<open>NaN\<close> and the infinities are outside the model.  A \<^verbatim>\<open>Cell\<close>
  is \<^verbatim>\<open>Coords & { hasLife }\<close>, so the record of cells extends the record of coordinates
  and a cell can be passed wherever coordinates are expected, as the source does in
  \<^verbatim>\<open>getDifferenceCells\<close>.
\<close>

record Coords =
  x :: int
  y :: int

record Cell = Coords +
  hasLife :: bool

text \<open>The class \<^verbatim>\<open>PlayingField\<close> has the single private field \<^verbatim>\<open>cells: Cell[]\<close>.\<close>

record PlayingField =
  cells :: "Cell list"

section \<open>Numbers of the host language\<close>

text \<open>
  The sum of two doubles is the exact sum rounded to the nearest double, ties to the
  double whose last mantissa bit is even.  A double has 53 mantissa bits: every integer
  of magnitude below \<open>2^53\<close> is a double, and from there on the doubles are the multiples
  of \<open>ulpOf m\<close>, the power of two for which \<open>m\<close> lies in
  \<open>[2^52 * ulpOf m, 2^53 * ulpOf m)\<close>.  \<open>roundToDouble\<close> rounds an integer this way
  and \<open>numberAdd\<close> is JavaScript's \<^verbatim>\<open>+\<close> on numbers holding integers.  The only sums
  the code forms are \<^verbatim>\<open>x + i\<close> and \<^verbatim>\<open>y + j\<close> with \<open>i, j \<in> {-1, 0, 1}\<close>, which never
  reach the overflow to infinity.
\<close>

function ulpOf :: "int \<Rightarrow> int" where
  "ulpOf m = (if m < 2 ^ 53 then 1 else 2 * ulpOf (m div 2))"
  by pat_completeness auto
termination
  by (relation "measure nat") auto

declare ulpOf.simps [simp del]

definition roundToDouble :: "int \<Rightarrow> int" where
  "roundToDouble n =
     (let m = \<bar>n\<bar>; u = ulpOf m; q = m div u; r = m mod u;
          k = (if 2 * r < u then q else if u < 2 * r then q + 1
               else if even q then q else q + 1)
      in sgn n * (k * u))"

definition numberAdd :: "int \<Rightarrow> int \<Rightarrow> int" where
  "numberAdd a b = roundToDouble (a + b)"

section \<open>Array primitives of the host language\<close>

text \<open>
  \<^verbatim>\<open>Array.prototype.findIndex\<close>: the index of the first element satisfying the
  predicate, scanning from index 0, and \<open>-1\<close> when there is none.
\<close>

fun findIndexFrom :: "int \<Rightarrow> ('a \<Rightarrow> bool) \<Rightarrow> 'a list \<Rightarrow> int" where
  "findIndexFrom k P [] = - 1"
| "findIndexFrom k P (a # as) = (if P a then k else findIndexFrom (k + 1) P as)"

definition findIndex :: "('a \<Rightarrow> bool) \<Rightarrow> 'a list \<Rightarrow> int" where
  "findIndex P xs = findIndexFrom 0 P xs"

text \<open>
  \<^verbatim>\<open>Array.prototype.splice(start, deleteCount)\<close> without inserted items: a negative
  start counts from the end, the start is clamped to the length and the delete count to
  what is left.
\<close>

definition array_splice :: "int \<Rightarrow> int \<Rightarrow> 'a list \<Rightarrow> 'a list" where
  "array_splice start deleteCount xs =
     (let len = int (length xs);
          s = (if start < 0 then max (len + start) 0 else min start len);
          d = min (max deleteCount 0) (len - s)
      in take (nat s) xs @ drop (nat (s + d)) xs)"

section \<open>Playing field class\<close>

text \<open>
  Every method takes the receiver \<open>this\<close> first.  A method that mutates the receiver
  returns the receiver's new state.
\<close>

definition PlayingField_new :: "Cell list \<Rightarrow> PlayingField" where
  "PlayingField_new cs = \<lparr> cells = cs \<rparr>"

definition hasLifeAt :: "PlayingField \<Rightarrow> 'a Coords_scheme \<Rightarrow> bool" where
  "hasLifeAt this coords \<longleftrightarrow>
     length (cells this) > 0 \<and>
     length (filter (\<lambda>cell. x cell = x coords \<and> y cell = y coords \<and> hasLife cell)
               (cells this)) > 0"

definition hasCellAt :: "PlayingField \<Rightarrow> 'a Coords_scheme \<Rightarrow> bool" where
  "hasCellAt this coords \<longleftrightarrow>
     length (cells this) > 0 \<and>
     length (filter (\<lambda>cell. x cell = x coords \<and> y cell = y coords) (cells this)) > 0"

definition findCellAt :: "PlayingField \<Rightarrow> 'a Coords_scheme \<Rightarrow> int" where
  "findCellAt this coords =
     findIndex (\<lambda>cell. x cell = x coords \<and> y cell = y coords) (cells this)"

text \<open>
  \<^verbatim>\<open>addLifeAt\<close>: the stored cell found at the coordinates has its flag set in place;
  otherwise \<^verbatim>\<open>{ ...coords, hasLife: true }\<close> is pushed.  The index read is in range,
  since \<^verbatim>\<open>findCellAt\<close> did not return \<open>-1\<close>.
\<close>

definition addLifeAt :: "PlayingField \<Rightarrow> 'a Coords_scheme \<Rightarrow> PlayingField" where
  "addLifeAt this coords =
     (if length (cells this) \<noteq> 0 \<and> findCellAt this coords \<noteq> - 1
      then this\<lparr> cells := (cells this)
             [nat (findCellAt this coords) :=
                (cells this ! nat (findCellAt this coords))\<lparr> hasLife := True \<rparr>] \<rparr>
      else this\<lparr> cells := cells this @ [\<lparr> x = x coords, y = y coords, hasLife = True \<rparr>] \<rparr>)"

definition killLifeAt :: "PlayingField \<Rightarrow> 'a Coords_scheme \<Rightarrow> PlayingField" where
  "killLifeAt this coords =
     (if length (cells this) \<noteq> 0 \<and> findCellAt this coords \<noteq> - 1
      then this\<lparr> cells := array_splice (findCellAt this coords) 1 (cells this) \<rparr>
      else this)"

text \<open>
  \<^verbatim>\<open>cellLivesNextRound\<close>: the two nested loops over \<open>i, j \<in> {-1, 0, 1}\<close> are folds
  that carry the counter \<^verbatim>\<open>neighbors\<close>; \<^verbatim>\<open>continue\<close> leaves the counter as it is.
  The coordinates looked up are the rounded sums \<^verbatim>\<open>x + i\<close> and \<^verbatim>\<open>y + j\<close>.
\<close>

definition countNeighbors :: "PlayingField \<Rightarrow> Cell \<Rightarrow> nat" where
  "countNeighbors this cell =
     fold (\<lambda>i. fold (\<lambda>j neighbors.
             if i = 0 \<and> j = 0 then neighbors
             else if hasLifeAt this \<lparr> x = numberAdd (x cell) i, y = numberAdd (y cell) j \<rparr>
                  then neighbors + 1 else neighbors)
           [- 1, 0, 1])
       [- 1, 0, 1] 0"

definition cellLivesNextRound :: "PlayingField \<Rightarrow> Cell \<Rightarrow> bool" where
  "cellLivesNextRound this cell \<longleftrightarrow>
     (let neighbors = countNeighbors this cell
      in (neighbors = 2 \<and> hasLife cell) \<or> neighbors = 3)"

text \<open>
  \<^verbatim>\<open>expandCellsWithNeighbors\<close>: \<^verbatim>\<open>forEach\<close> fixes the number of visited indices
  before the first callback, so the cells pushed by the callback are not visited; and
  since the callback only pushes, the element it reads at each visited index is the
  original one.  The callback itself tests \<^verbatim>\<open>hasCellAt\<close> on the array as it grows.
\<close>

definition expandAround :: "Cell \<Rightarrow> PlayingField \<Rightarrow> PlayingField" where
  "expandAround cell =
     fold (\<lambda>i. fold (\<lambda>j this.
             if i = 0 \<and> j = 0 then this
             else if \<not> hasCellAt this \<lparr> x = numberAdd (x cell) i, y = numberAdd (y cell) j \<rparr>
                  then this\<lparr> cells := cells this @
                         [\<lparr> x = numberAdd (x cell) i, y = numberAdd (y cell) j,
                            hasLife = False \<rparr>] \<rparr>
                  else this)
           [- 1, 0, 1])
       [- 1, 0, 1]"

definition expandCellsWithNeighbors :: "PlayingField \<Rightarrow> PlayingField" where
  "expandCellsWithNeighbors this = fold expandAround (cells this) this"

definition toggleCell :: "PlayingField \<Rightarrow> 'a Coords_scheme \<Rightarrow> PlayingField" where
  "toggleCell this coords =
     (if hasLifeAt this coords then killLifeAt this coords else addLifeAt this coords)"

text \<open>
  \<^verbatim>\<open>spawnNew\<close> mutates the receiver and returns a new field: the result is the pair of
  the receiver after the call and the returned field.
\<close>

definition spawnNew :: "PlayingField \<Rightarrow> PlayingField \<times> PlayingField" where
  "spawnNew this =
     (let this1 = expandCellsWithNeighbors this;
          newCells = filter hasLife
            (map (\<lambda>cell. \<lparr> x = x cell, y = y cell,
                            hasLife = cellLivesNextRound this1 cell \<rparr>) (cells this1));
          this2 = this1\<lparr> cells := filter hasLife (cells this1) \<rparr>
      in (this2, PlayingField_new newCells))"

definition getCells :: "PlayingField \<Rightarrow> Cell list" where
  "getCells this = map (\<lambda>d. d) (cells this)"

definition getDifferenceCells :: "PlayingField \<Rightarrow> PlayingField \<Rightarrow> Cell list" where
  "getDifferenceCells this otherField =
     fold (\<lambda>cell differenceCells.
             if \<not> hasLifeAt this cell then differenceCells @ [cell] else differenceCells)
       (getCells otherField) []"

definition getClone :: "PlayingField \<Rightarrow> PlayingField" where
  "getClone this = PlayingField_new (getCells this)"

section \<open>The methods on a store of shared objects\<close>

text \<open>
  The pure model above passes cell values, which is what the methods compute as long as
  one field is looked at on its own.  JavaScript arrays and cells are objects, and
  \<^verbatim>\<open>getCells\<close> copies the array but not the cells in it, so two fields can hold the same
  cell object.  Here objects live in a store and are addressed by their index: the cell
  objects, the arrays (lists of references to cells) and the \<^verbatim>\<open>PlayingField\<close> objects
  (each holding the reference to its \<^verbatim>\<open>cells\<close> array).  Allocation appends to the store,
  so every reference a method returns is in range.
\<close>

record Store =
  objs :: "Cell list"
  arrs :: "nat list list"
  flds :: "nat list"

text \<open>The cells a field stores, read through its references.\<close>

definition fieldValue :: "Store \<Rightarrow> nat \<Rightarrow> PlayingField" where
  "fieldValue st this = \<lparr> cells = map (\<lambda>r. objs st ! r) (arrs st ! (flds st ! this)) \<rparr>"

text \<open>
  The constructor \<^verbatim>\<open>this.cells = cells || []\<close> keeps the reference it is given (no copy),
  or allocates an empty array.
\<close>

definition PlayingField_new_s :: "nat option \<Rightarrow> Store \<Rightarrow> nat \<times> Store" where
  "PlayingField_new_s cs st =
     (case cs of
        Some a \<Rightarrow> (length (flds st), st\<lparr> flds := flds st @ [a] \<rparr>)
      | None \<Rightarrow> (length (flds st),
                 st\<lparr> arrs := arrs st @ [[]], flds := flds st @ [length (arrs st)] \<rparr>))"

text \<open>
  \<^verbatim>\<open>getCells\<close> allocates a new array, \<^verbatim>\<open>this.cells.map(d => d)\<close>, whose elements are the
  same references; \<^verbatim>\<open>getClone\<close> passes it to the constructor.
\<close>

definition getCells_s :: "nat \<Rightarrow> Store \<Rightarrow> nat \<times> Store" where
  "getCells_s this st =
     (length (arrs st), st\<lparr> arrs := arrs st @ [map (\<lambda>d. d) (arrs st ! (flds st ! this))] \<rparr>)"

definition getClone_s :: "nat \<Rightarrow> Store \<Rightarrow> nat \<times> Store" where
  "getClone_s this st =
     (let (a, st1) = getCells_s this st in PlayingField_new_s (Some a) st1)"

text \<open>
  \<^verbatim>\<open>addLifeAt\<close> writes the flag of the cell object found (\<^verbatim>\<open>this.cells[i].hasLife = true\<close>)
  or allocates a cell and pushes its reference onto the receiver's array;
  \<^verbatim>\<open>killLifeAt\<close> splices the receiver's array in place.  The queries read the cells
  through the references.
\<close>

definition addLifeAt_s :: "nat \<Rightarrow> 'a Coords_scheme \<Rightarrow> Store \<Rightarrow> Store" where
  "addLifeAt_s this coords st =
     (let a = flds st ! this; v = fieldValue st this
      in if length (cells v) \<noteq> 0 \<and> findCellAt v coords \<noteq> - 1
         then (let r = (arrs st ! a) ! nat (findCellAt v coords)
               in st\<lparr> objs := (objs st)[r := (objs st ! r)\<lparr> hasLife := True \<rparr>] \<rparr>)
         else st\<lparr> objs := objs st @ [\<lparr> x = x coords, y = y coords, hasLife = True \<rparr>],
                  arrs := (arrs st)[a := arrs st ! a @ [length (objs st)]] \<rparr>)"

definition killLifeAt_s :: "nat \<Rightarrow> 'a Coords_scheme \<Rightarrow> Store \<Rightarrow> Store" where
  "killLifeAt_s this coords st =
     (let a = flds st ! this; v = fieldValue st this
      in if length (cells v) \<noteq> 0 \<and> findCellAt v coords \<noteq> - 1
         then st\<lparr> arrs := (arrs st)[a := array_splice (findCellAt v coords) 1 (arrs st ! a)] \<rparr>
         else st)"

definition toggleCell_s :: "nat \<Rightarrow> 'a Coords_scheme \<Rightarrow> Store \<Rightarrow> Store" where
  "toggleCell_s this coords st =
     (if hasLifeAt (fieldValue st this) coords
      then killLifeAt_s this coords st else addLifeAt_s this coords st)"

section \<open>Notions used to state the properties\<close>

text \<open>
  The coordinates of a stored cell as a pair, and the uniqueness of coordinates among the
  stored cells of a field.
\<close>

definition coordsOf :: "'a Coords_scheme \<Rightarrow> int \<times> int" where
  "coordsOf c = (x c, y c)"

definition distinctCoords :: "PlayingField \<Rightarrow> bool" where
  "distinctCoords this \<longleftrightarrow> distinct (map coordsOf (cells this))"

text \<open>The live-cell set of a field: the coordinates at which \<^verbatim>\<open>hasLifeAt\<close> answers true.\<close>

definition liveSet :: "PlayingField \<Rightarrow> (int \<times> int) set" where
  "liveSet this = {(a, b). hasLifeAt this \<lparr> x = a, y = b \<rparr>}"

text \<open>
  The standard rule of Conway's Game of Life on sets of coordinates, written from its
  usual statement and not from the code: the Moore neighbourhood of a coordinate is the
  eight coordinates around it, and a coordinate is live in the next generation when it
  has exactly three live neighbours, or exactly two and is live itself.
\<close>

definition mooreNeighbors :: "int \<times> int \<Rightarrow> (int \<times> int) set" where
  "mooreNeighbors c = {d. d \<noteq> c \<and> \<bar>fst d - fst c\<bar> \<le> 1 \<and> \<bar>snd d - snd c\<bar> \<le> 1}"

definition conwayStep :: "(int \<times> int) set \<Rightarrow> (int \<times> int) set" where
  "conwayStep L =
     {c. card (mooreNeighbors c \<inter> L) = 3 \<or> (card (mooreNeighbors c \<inter> L) = 2 \<and> c \<in> L)}"

text \<open>
  A field of the store whose references are in range and whose array holds no cell
  object twice.
\<close>

definition validField :: "Store \<Rightarrow> nat \<Rightarrow> bool" where
  "validField st this \<longleftrightarrow>
     this < length (flds st) \<and> flds st ! this < length (arrs st) \<and>
     list_all (\<lambda>r. r < length (objs st)) (arrs st ! (flds st ! this)) \<and>
     distinct (arrs st ! (flds st ! this))"

text \<open>
  The safe integers of JavaScript (\<^verbatim>\<open>Number.isSafeInteger\<close>): magnitude at most
  \<open>2^53 - 1\<close>.  A field whose alive cells all have safe integer coordinates; lifeless
  cells may be anywhere.
\<close>

definition maxSafeInteger :: int where
  "maxSafeInteger = 2 ^ 53 - 1"

definition safeInteger :: "int \<Rightarrow> bool" where
  "safeInteger n \<longleftrightarrow> \<bar>n\<bar> \<le> maxSafeInteger"

definition safeCoords :: "(int \<times> int) set" where
  "safeCoords = {(a, b). safeInteger a \<and> safeInteger b}"

definition liveCellsSafe :: "PlayingField \<Rightarrow> bool" where
  "liveCellsSafe this \<longleftrightarrow>
     list_all (\<lambda>cell. hasLife cell \<longrightarrow> safeInteger (x cell) \<and> safeInteger (y cell))
       (cells this)"


definition blinkerRow :: PlayingField where
  "blinkerRow = PlayingField_new
     [\<lparr> x = 0, y = 0, hasLife = True \<rparr>, \<lparr> x = 1, y = 0, hasLife = True \<rparr>,
      \<lparr> x = 2, y = 0, hasLife = True \<rparr>]"

definition bigField :: PlayingField where
  "bigField = PlayingField_new
     [\<lparr> x = 2 ^ 53, y = 0, hasLife = True \<rparr>, \<lparr> x = 2 ^ 53, y = 1, hasLife = True \<rparr>]"

definition placeholderField :: PlayingField where
  "placeholderField = PlayingField_new [\<lparr> x = 0, y = 0, hasLife = False \<rparr>]"

definition mixedField :: PlayingField where
  "mixedField = PlayingField_new
     [\<lparr> x = 0, y = 0, hasLife = True \<rparr>, \<lparr> x = 1, y = 1, hasLife = False \<rparr>,
      \<lparr> x = 1, y = 0, hasLife = True \<rparr>, \<lparr> x = 0, y = 1, hasLife = True \<rparr>]"

text \<open>
  A store as \<^verbatim>\<open>loadHandler\<close> produces it from a saved game with one lifeless cell: the
  parsed array holding one cell object.  Field \<open>f\<close> is constructed from that array, \<open>g\<close> is
  \<open>f.getClone()\<close>, and then \<open>f.toggleCell({x: 0, y: 0})\<close> runs.
\<close>

definition loadedStore :: Store where
  "loadedStore = \<lparr> objs = [\<lparr> x = 0, y = 0, hasLife = False \<rparr>], arrs = [[0]], flds = [] \<rparr>"

definition fieldF :: nat where
  "fieldF = fst (PlayingField_new_s (Some 0) loadedStore)"

definition storeF :: Store where
  "storeF = snd (PlayingField_new_s (Some 0) loadedStore)"

definition fieldG :: nat where
  "fieldG = fst (getClone_s fieldF storeF)"

definition storeG :: Store where
  "storeG = snd (getClone_s fieldF storeF)"

definition storeToggled :: Store where
  "storeToggled = toggleCell_s fieldF \<lparr> x = 0, y = 0 \<rparr> storeG"

text \<open>
  Auxiliary notions for the proofs about the expansion: one iteration of the innermost
  loop body of \<^verbatim>\<open>expandCellsWithNeighbors\<close>, and the relation between a field and a
  later state of it that has only gained lifeless cells at the end of its array.
\<close>

definition expandStep :: "Cell \<Rightarrow> int \<Rightarrow> int \<Rightarrow> PlayingField \<Rightarrow> PlayingField" where
  "expandStep cell i j this =
     (if i = 0 \<and> j = 0 then this
      else if \<not> hasCellAt this \<lparr> x = numberAdd (x cell) i, y = numberAdd (y cell) j \<rparr>
           then this\<lparr> cells := cells this @
                  [\<lparr> x = numberAdd (x cell) i, y = numberAdd (y cell) j,
                     hasLife = False \<rparr>] \<rparr>
           else this)"

definition appendsDead :: "PlayingField \<Rightarrow> PlayingField \<Rightarrow> bool" where
  "appendsDead this this' \<longleftrightarrow>
     (\<exists>zs. cells this' = cells this @ zs \<and> (\<forall>z \<in> set zs. \<not> hasLife z))"

text \<open>The eight offsets visited by the two nested loops, the centre left out.\<close>

definition neighborOffsets :: "(int \<times> int) list" where
  "neighborOffsets =
     [(- 1, - 1), (- 1, 0), (- 1, 1), (0, - 1), (0, 1), (1, - 1), (1, 0), (1, 1)]"

section \<open>Queries\<close>

lemma hasLifeAt_iff:
  "hasLifeAt this coords \<longleftrightarrow>
     (\<exists>cell \<in> set (cells this). x cell = x coords \<and> y cell = y coords \<and> hasLife cell)"
  by (auto simp: hasLifeAt_def filter_empty_conv)

lemma hasCellAt_iff:
  "hasCellAt this coords \<longleftrightarrow>
     (\<exists>cell \<in> set (cells this). x cell = x coords \<and> y cell = y coords)"
  by (auto simp: hasCellAt_def filter_empty_conv)

section \<open>Diffing\<close>

lemma fold_push_filter:
  "fold (\<lambda>a acc. if P a then acc @ [a] else acc) xs ys = ys @ filter P xs"
  by (induction xs arbitrary: ys) auto

lemma getDifferenceCells_filter:
  "getDifferenceCells this otherField =
     filter (\<lambda>cell. \<not> hasLifeAt this cell) (cells otherField)"
  by (simp add: getDifferenceCells_def getCells_def fold_push_filter)



text \<open>
  Claim C8 says that the difference of a field from itself is empty, also when the field
  stores lifeless cells.  The code tests \<^verbatim>\<open>hasLifeAt\<close> where its comment speaks of the
  cells ``present in otherField but not in the current one'': for the field that stores
  the one lifeless cell \<open>(0, 0)\<close> it returns that cell.
\<close>

theorem getDifferenceCells_self_returns_dead_cell:
  "getDifferenceCells placeholderField placeholderField =
     [\<lparr> x = 0, y = 0, hasLife = False \<rparr>]"
  by code_simp

text \<open>On a field that stores only alive cells the difference from itself is empty.\<close>

lemma getDifferenceCells_self_alive:
  "list_all hasLife (cells f) \<Longrightarrow> getDifferenceCells f f = []"
  by (auto simp: getDifferenceCells_filter filter_empty_conv hasLifeAt_iff list_all_iff)

section \<open>Expansion with neighbours\<close>

lemma appendsDead_refl: "appendsDead this this"
  by (simp add: appendsDead_def)

lemma appendsDead_trans:
  "appendsDead a b \<Longrightarrow> appendsDead b c \<Longrightarrow> appendsDead a c"
  by (auto simp: appendsDead_def)

lemma appendsDead_fold:
  assumes "\<And>a t. a \<in> set as \<Longrightarrow> appendsDead t (f a t)"
  shows "appendsDead t (fold f as t)"
  using assms
proof (induction as arbitrary: t)
  case Nil
  show ?case by (simp add: appendsDead_refl)
next
  case (Cons a as)
  have "appendsDead t (f a t)" using Cons.prems by simp
  moreover have "appendsDead (f a t) (fold f as (f a t))"
    using Cons.IH Cons.prems by simp
  ultimately show ?case by (simp add: appendsDead_trans)
qed

lemma appendsDead_fold2:
  assumes "\<And>i j t. appendsDead t (f i j t)"
  shows "appendsDead t (fold (\<lambda>i. fold (f i) js) is t)"
  by (intro appendsDead_fold assms)

lemma expandAround_steps:
  "expandAround cell = fold (\<lambda>i. fold (expandStep cell i) [- 1, 0, 1]) [- 1, 0, 1]"
  unfolding expandAround_def expandStep_def [abs_def] by (rule refl)

lemma appendsDead_expandStep: "appendsDead this (expandStep cell i j this)"
  by (simp add: appendsDead_def expandStep_def)

lemma appendsDead_expandAround: "appendsDead this (expandAround cell this)"
  unfolding expandAround_steps by (rule appendsDead_fold2) (rule appendsDead_expandStep)

lemma appendsDead_expand: "appendsDead this (expandCellsWithNeighbors this)"
  unfolding expandCellsWithNeighbors_def
  by (rule appendsDead_fold) (rule appendsDead_expandAround)

lemma appendsDead_filter:
  "appendsDead this this' \<Longrightarrow> filter hasLife (cells this') = filter hasLife (cells this)"
  by (auto simp: appendsDead_def filter_empty_conv)

lemma appendsDead_hasLifeAt:
  "appendsDead this this' \<Longrightarrow> hasLifeAt this' c = hasLifeAt this c"
  by (auto simp: appendsDead_def hasLifeAt_iff)

lemma fold_preserve:
  assumes "\<And>b t. Q t \<Longrightarrow> Q (f b t)" and "Q t"
  shows "Q (fold f as t)"
  using assms(2) by (induction as arbitrary: t) (simp_all add: assms(1))

lemma fold_establish:
  assumes "a \<in> set as" and "\<And>t. Q (f a t)" and "\<And>b t. Q t \<Longrightarrow> Q (f b t)"
  shows "Q (fold f as t)"
  using assms(1)
proof (induction as arbitrary: t)
  case Nil
  then show ?case by simp
next
  case (Cons b bs)
  show ?case
  proof (cases "a = b")
    case True
    have "Q (fold f bs (f a t))"
    proof (rule fold_preserve [where Q = Q and f = f])
      show "Q (f b' t')" if "Q t'" for b' t' using that by (rule assms(3))
      show "Q (f a t)" by (rule assms(2))
    qed
    with True show ?thesis by simp
  next
    case False
    with Cons.prems have "a \<in> set bs" by simp
    then have "Q (fold f bs (f b t))" by (rule Cons.IH)
    then show ?thesis by simp
  qed
qed

lemma appendsDead_hasCellAt:
  "appendsDead this this' \<Longrightarrow> hasCellAt this c \<Longrightarrow> hasCellAt this' c"
  by (auto simp: appendsDead_def hasCellAt_iff)

lemma appendsDead_subset:
  "appendsDead this this' \<Longrightarrow> set (cells this) \<subseteq> set (cells this')"
  by (auto simp: appendsDead_def)

lemma hasCellAt_expandStep:
  "\<not> (i = 0 \<and> j = 0) \<Longrightarrow>
     hasCellAt (expandStep cell i j this) \<lparr> x = numberAdd (x cell) i, y = numberAdd (y cell) j \<rparr>"
  by (auto simp: expandStep_def hasCellAt_iff)

lemma hasCellAt_expandAround:
  assumes "(i, j) \<in> set neighborOffsets"
  shows "hasCellAt (expandAround cell this) \<lparr> x = numberAdd (x cell) i, y = numberAdd (y cell) j \<rparr>"
proof -
  let ?c = "\<lparr> x = numberAdd (x cell) i, y = numberAdd (y cell) j \<rparr>"
  from assms have i: "i \<in> set [- 1, 0, 1]" and j: "j \<in> set [- 1, 0, 1]"
    and nz: "\<not> (i = 0 \<and> j = 0)"
    by (auto simp: neighborOffsets_def)
  have keep: "hasCellAt (expandStep cell i' j' t) ?c" if "hasCellAt t ?c" for i' j' t
    using appendsDead_expandStep that by (rule appendsDead_hasCellAt)
  have keep_row: "hasCellAt (fold (expandStep cell i') [- 1, 0, 1] t) ?c"
    if "hasCellAt t ?c" for i' t
    by (rule fold_preserve [where Q = "\<lambda>t. hasCellAt t ?c"]) (rule keep, assumption, rule that)
  have row: "hasCellAt (fold (expandStep cell i) [- 1, 0, 1] t) ?c" for t
    by (rule fold_establish [where Q = "\<lambda>t. hasCellAt t ?c", OF j])
       (rule hasCellAt_expandStep [OF nz], rule keep)
  show ?thesis
    unfolding expandAround_steps
    by (rule fold_establish [where Q = "\<lambda>t. hasCellAt t ?c", OF i]) (rule row, rule keep_row)
qed

lemma hasCellAt_expand:
  assumes "cell \<in> set (cells this)" and "(i, j) \<in> set neighborOffsets"
  shows "hasCellAt (expandCellsWithNeighbors this) \<lparr> x = numberAdd (x cell) i, y = numberAdd (y cell) j \<rparr>"
proof -
  let ?c = "\<lparr> x = numberAdd (x cell) i, y = numberAdd (y cell) j \<rparr>"
  have keep: "hasCellAt (expandAround b t) ?c" if "hasCellAt t ?c" for b t
    using appendsDead_expandAround that by (rule appendsDead_hasCellAt)
  show ?thesis
    unfolding expandCellsWithNeighbors_def
    by (rule fold_establish [where Q = "\<lambda>t. hasCellAt t ?c", OF assms(1)])
       (rule hasCellAt_expandAround [OF assms(2)], rule keep)
qed

section \<open>Rounded addition\<close>

text \<open>
  Sums of magnitude up to \<open>2^53\<close> are exact, and a sum of larger magnitude is rounded to
  a number of magnitude at least \<open>2^53\<close>; so a rounded sum that is a safe integer is the
  exact sum.
\<close>

lemma numberAdd_at_limit:
  "numberAdd (2 ^ 53) 1 = 2 ^ 53" "numberAdd (2 ^ 53) (- 1) = 2 ^ 53 - 1"
  "numberAdd (2 ^ 53 + 2) 1 = 2 ^ 53 + 4"
  by code_simp+

lemma ulpOf_small: "m < 2 ^ 53 \<Longrightarrow> ulpOf m = 1"
  by (simp add: ulpOf.simps)

lemma ulpOf_large: "2 ^ 53 \<le> m \<Longrightarrow> 2 \<le> ulpOf m \<and> 2 ^ 52 * ulpOf m \<le> m"
proof (induction m rule: ulpOf.induct)
  case (1 m)
  show ?case
  proof (cases "m div 2 < 2 ^ 53")
    case True
    then have "ulpOf m = 2" using "1.prems" by (simp add: ulpOf.simps [of m] ulpOf_small)
    with "1.prems" show ?thesis by simp
  next
    case False
    with "1.IH" "1.prems" have ih: "2 \<le> ulpOf (m div 2)" "2 ^ 52 * ulpOf (m div 2) \<le> m div 2"
      by simp_all
    have u: "ulpOf m = 2 * ulpOf (m div 2)" using "1.prems" by (simp add: ulpOf.simps [of m])
    have "2 ^ 52 * ulpOf m = 2 * (2 ^ 52 * ulpOf (m div 2))" by (simp add: u)
    also have "\<dots> \<le> 2 * (m div 2)" using ih(2) by simp
    also have "\<dots> \<le> m" by simp
    finally show ?thesis using ih(1) u by simp
  qed
qed

lemma roundToDouble_small: "\<bar>n\<bar> < 2 ^ 53 \<Longrightarrow> roundToDouble n = n"
proof -
  assume a: "\<bar>n\<bar> < 2 ^ 53"
  then have "ulpOf \<bar>n\<bar> = 1" by (rule ulpOf_small)
  then have "roundToDouble n = sgn n * \<bar>n\<bar>" by (simp add: roundToDouble_def)
  then show ?thesis by (simp add: mult_sgn_abs)
qed

lemma roundToDouble_large:
  assumes "2 ^ 53 \<le> \<bar>n\<bar>"
  shows "2 ^ 53 \<le> \<bar>roundToDouble n\<bar>"
proof -
  let ?m = "\<bar>n\<bar>"
  let ?u = "ulpOf ?m"
  let ?q = "?m div ?u"
  let ?r = "?m mod ?u"
  let ?k = "if 2 * ?r < ?u then ?q else if ?u < 2 * ?r then ?q + 1
            else if even ?q then ?q else ?q + 1"
  from ulpOf_large [OF assms] have u: "2 \<le> ?u" and b: "2 ^ 52 * ?u \<le> ?m" by simp_all
  from u have upos: "0 < ?u" by simp
  have "(2 ^ 52 * ?u) div ?u \<le> ?m div ?u" using b upos by (rule zdiv_mono1)
  then have q: "2 ^ 52 \<le> ?q" using upos by simp
  have "?q \<le> ?k" by simp
  with q have k52: "2 ^ 52 \<le> ?k" by (rule order_trans)
  then have "2 ^ 52 * 2 \<le> ?k * ?u" using u by (intro mult_mono) simp_all
  then have k: "2 ^ 53 \<le> ?k * ?u" by simp
  from assms have "n \<noteq> 0" by auto
  then have "\<bar>sgn n\<bar> = 1" by (simp add: sgn_if)
  moreover have "0 \<le> ?k * ?u" using k by simp
  moreover have "\<bar>roundToDouble n\<bar> = \<bar>sgn n\<bar> * \<bar>?k * ?u\<bar>"
    unfolding roundToDouble_def Let_def by (rule abs_mult)
  ultimately have "\<bar>roundToDouble n\<bar> = ?k * ?u"
    by (simp only: abs_of_nonneg mult_1)
  with k show ?thesis by (simp only:)
qed

lemma roundToDouble_boundary:
  "roundToDouble (2 ^ 53) = 2 ^ 53" "roundToDouble (- (2 ^ 53)) = - (2 ^ 53)"
  by code_simp+

lemma roundToDouble_exact: "\<bar>n\<bar> \<le> 2 ^ 53 \<Longrightarrow> roundToDouble n = n"
proof (cases "\<bar>n\<bar> < 2 ^ 53")
  case True
  then show ?thesis by (rule roundToDouble_small)
next
  case False
  assume "\<bar>n\<bar> \<le> 2 ^ 53"
  with False have "n = 2 ^ 53 \<or> n = - (2 ^ 53)" by auto
  then show ?thesis using roundToDouble_boundary by auto
qed

lemma roundToDouble_safe_result:
  "\<bar>roundToDouble n\<bar> \<le> maxSafeInteger \<Longrightarrow> roundToDouble n = n"
proof (cases "\<bar>n\<bar> < 2 ^ 53")
  case True
  then show ?thesis by (rule roundToDouble_small)
next
  case False
  then have "2 ^ 53 \<le> \<bar>roundToDouble n\<bar>" by (intro roundToDouble_large) simp
  moreover assume "\<bar>roundToDouble n\<bar> \<le> maxSafeInteger"
  ultimately show ?thesis by (simp add: maxSafeInteger_def)
qed

lemma numberAdd_exact: "\<bar>a + i\<bar> \<le> 2 ^ 53 \<Longrightarrow> numberAdd a i = a + i"
  by (simp add: numberAdd_def roundToDouble_exact)

lemma numberAdd_safe_result: "\<bar>numberAdd a i\<bar> \<le> maxSafeInteger \<Longrightarrow> numberAdd a i = a + i"
  unfolding numberAdd_def by (rule roundToDouble_safe_result)

text \<open>The common case first, for evaluation: a sum below \<open>2^53\<close> needs no rounding.\<close>

lemma numberAdd_code [code]:
  "numberAdd a b =
     (let s = a + b in if \<bar>s\<bar> < 9007199254740992 then s else roundToDouble s)"
proof (cases "\<bar>a + b\<bar> < 2 ^ 53")
  case True
  then have "roundToDouble (a + b) = a + b" by (rule roundToDouble_small)
  then show ?thesis by (simp add: numberAdd_def Let_def)
next
  case False
  then show ?thesis by (simp add: numberAdd_def Let_def)
qed

lemma offset_membership:
  assumes "L \<subseteq> safeCoords"
  shows "(numberAdd a i, numberAdd b j) \<in> L \<longleftrightarrow> (a + i, b + j) \<in> L"
proof
  assume m: "(numberAdd a i, numberAdd b j) \<in> L"
  with assms have sa: "\<bar>numberAdd a i\<bar> \<le> maxSafeInteger"
    and sb: "\<bar>numberAdd b j\<bar> \<le> maxSafeInteger"
    by (auto simp: safeCoords_def safeInteger_def)
  have "numberAdd a i = a + i" using sa by (rule numberAdd_safe_result)
  moreover have "numberAdd b j = b + j" using sb by (rule numberAdd_safe_result)
  ultimately show "(a + i, b + j) \<in> L" using m by (simp only:)
next
  assume m: "(a + i, b + j) \<in> L"
  with assms have "safeInteger (a + i)" "safeInteger (b + j)"
    by (auto simp: safeCoords_def)
  then have sa: "\<bar>a + i\<bar> \<le> 2 ^ 53" and sb: "\<bar>b + j\<bar> \<le> 2 ^ 53"
    by (simp_all add: safeInteger_def maxSafeInteger_def)
  have "numberAdd a i = a + i" using sa by (rule numberAdd_exact)
  moreover have "numberAdd b j = b + j" using sb by (rule numberAdd_exact)
  ultimately show "(numberAdd a i, numberAdd b j) \<in> L" using m by (simp only:)
qed

section \<open>Counting neighbours\<close>

lemma fold_count_inner:
  "fold (\<lambda>j n. if Q j then n else if P j then n + 1 else n) js (n0::nat) =
     n0 + length (filter (\<lambda>j. \<not> Q j \<and> P j) js)"
  by (induction js arbitrary: n0) auto

lemma fold_count_nested:
  "fold (\<lambda>i. fold (\<lambda>j n. if Q i j then n else if P i j then n + 1 else n) js) is (n0::nat) =
     n0 + length (filter (\<lambda>(i, j). \<not> Q i j \<and> P i j) (List.product is js))"
proof (induction "is" arbitrary: n0)
  case Nil
  show ?case by simp
next
  case (Cons i "is")
  let ?G = "\<lambda>i. fold (\<lambda>j n. if Q i j then n else if P i j then n + 1 else n) js"
  have inner: "?G i n0 = n0 + length (filter (\<lambda>j. \<not> Q i j \<and> P i j) js)"
    by (rule fold_count_inner)
  have "fold ?G (i # is) n0 = fold ?G is (?G i n0)"
    by (simp only: fold_simps)
  also have "\<dots> = ?G i n0 +
      length (filter (\<lambda>(i, j). \<not> Q i j \<and> P i j) (List.product is js))"
    by (rule Cons.IH)
  finally show ?case
    by (simp only: inner) (simp add: filter_map o_def)
qed

lemma product_offsets:
  "filter (\<lambda>(i, j). \<not> (i = 0 \<and> j = 0)) (List.product [- 1, 0, 1] [- 1, 0, 1 :: int]) =
     (neighborOffsets :: (int \<times> int) list)"
  by (simp add: neighborOffsets_def)

lemma countNeighbors_filter:
  "countNeighbors this cell =
     length (filter (\<lambda>(i, j). hasLifeAt this \<lparr> x = numberAdd (x cell) i, y = numberAdd (y cell) j \<rparr>)
               neighborOffsets)"
proof -
  have "countNeighbors this cell =
          length (filter (\<lambda>(i, j). \<not> (i = 0 \<and> j = 0) \<and>
                     hasLifeAt this \<lparr> x = numberAdd (x cell) i, y = numberAdd (y cell) j \<rparr>)
                   (List.product [- 1, 0, 1] [- 1, 0, 1]))"
    unfolding countNeighbors_def by (simp only: fold_count_nested add_0)
  also have "(\<lambda>(i, j). \<not> (i = 0 \<and> j = 0) \<and>
                     hasLifeAt this \<lparr> x = numberAdd (x cell) i, y = numberAdd (y cell) j \<rparr>) =
             (\<lambda>p. (\<lambda>(i, j). \<not> (i = 0 \<and> j = 0)) p \<and>
                  (\<lambda>(i, j). hasLifeAt this \<lparr> x = numberAdd (x cell) i, y = numberAdd (y cell) j \<rparr>) p)"
    by (simp add: fun_eq_iff)
  finally show ?thesis
    by (simp only: filter_filter [symmetric] product_offsets)
qed

lemma mooreNeighbors_offsets:
  "mooreNeighbors c = set (map (\<lambda>(i, j). (fst c + i, snd c + j)) neighborOffsets)"
proof (rule set_eqI)
  fix d :: "int \<times> int"
  obtain p q where d: "d = (p, q)" by (cases d)
  obtain a b where c: "c = (a, b)" by (cases c)
  have "d \<in> mooreNeighbors c \<longleftrightarrow>
          (p - a = - 1 \<or> p - a = 0 \<or> p - a = 1) \<and> (q - b = - 1 \<or> q - b = 0 \<or> q - b = 1) \<and>
          \<not> (p - a = 0 \<and> q - b = 0)"
    unfolding mooreNeighbors_def d c by (auto simp: abs_le_iff)
  also have "\<dots> \<longleftrightarrow> d \<in> set (map (\<lambda>(i, j). (fst c + i, snd c + j)) neighborOffsets)"
    unfolding d c neighborOffsets_def by (auto simp: algebra_simps)
  finally show "d \<in> mooreNeighbors c \<longleftrightarrow>
      d \<in> set (map (\<lambda>(i, j). (fst c + i, snd c + j)) neighborOffsets)" .
qed

lemma distinct_offsets:
  "distinct (map (\<lambda>(i, j). (fst c + i, snd c + j)) neighborOffsets)"
  by (simp add: neighborOffsets_def)

lemma card_mooreNeighbors_Int:
  "card (mooreNeighbors c \<inter> L) =
     length (filter (\<lambda>(i, j). (fst c + i, snd c + j) \<in> L) neighborOffsets)"
proof -
  let ?ns = "map (\<lambda>(i, j). (fst c + i, snd c + j)) neighborOffsets"
  have "mooreNeighbors c \<inter> L = set (filter (\<lambda>d. d \<in> L) ?ns)"
    by (auto simp: mooreNeighbors_offsets)
  moreover have "distinct (filter (\<lambda>d. d \<in> L) ?ns)"
    by (rule distinct_filter) (rule distinct_offsets)
  ultimately have "card (mooreNeighbors c \<inter> L) = length (filter (\<lambda>d. d \<in> L) ?ns)"
    by (simp only: distinct_card)
  also have "\<dots> = length (filter (\<lambda>(i, j). (fst c + i, snd c + j) \<in> L) neighborOffsets)"
    by (simp only: filter_map length_map o_def split_def)
  finally show ?thesis .
qed

text \<open>
  Where every alive cell has safe integer coordinates, the counter of
  \<^verbatim>\<open>cellLivesNextRound\<close> is the number of alive Moore neighbours, at every cell.
\<close>

lemma countNeighbors_card:
  assumes "liveSet this \<subseteq> safeCoords"
  shows "countNeighbors this cell = card (mooreNeighbors (coordsOf cell) \<inter> liveSet this)"
proof -
  have "filter (\<lambda>(i, j). hasLifeAt this \<lparr> x = numberAdd (x cell) i, y = numberAdd (y cell) j \<rparr>)
          neighborOffsets =
        filter (\<lambda>(i, j). (x cell + i, y cell + j) \<in> liveSet this) neighborOffsets"
  proof (rule filter_cong [OF refl])
    fix p :: "int \<times> int"
    obtain i j where p: "p = (i, j)" by (cases p)
    have "hasLifeAt this \<lparr> x = numberAdd (x cell) i, y = numberAdd (y cell) j \<rparr> \<longleftrightarrow>
            (numberAdd (x cell) i, numberAdd (y cell) j) \<in> liveSet this"
      by (simp add: liveSet_def)
    also have "\<dots> \<longleftrightarrow> (x cell + i, y cell + j) \<in> liveSet this"
      by (rule offset_membership [OF assms])
    finally show "(case p of (i, j) \<Rightarrow>
                     hasLifeAt this \<lparr> x = numberAdd (x cell) i, y = numberAdd (y cell) j \<rparr>) =
                  (case p of (i, j) \<Rightarrow> (x cell + i, y cell + j) \<in> liveSet this)"
      unfolding p by simp
  qed
  then show ?thesis
    by (simp add: countNeighbors_filter card_mooreNeighbors_Int coordsOf_def)
qed

section \<open>Advancing a generation\<close>

lemma cells_fst_spawnNew: "cells (fst (spawnNew this)) = filter hasLife (cells this)"
  by (simp add: spawnNew_def Let_def appendsDead_filter [OF appendsDead_expand])

lemma cells_snd_spawnNew:
  "cells (snd (spawnNew this)) =
     filter hasLife (map (\<lambda>cell. \<lparr> x = x cell, y = y cell,
        hasLife = cellLivesNextRound (expandCellsWithNeighbors this) cell \<rparr>)
        (cells (expandCellsWithNeighbors this)))"
  by (simp add: spawnNew_def Let_def PlayingField_new_def)

text \<open>
  Claim C4: \<^verbatim>\<open>getCells()\<close> on the field returned by \<^verbatim>\<open>spawnNew()\<close> contains no entry
  whose \<^verbatim>\<open>hasLife\<close> is false.
\<close>

theorem spawnNew_result_only_alive:
  "\<forall>cell \<in> set (getCells (snd (spawnNew this))). hasLife cell"
  by (simp add: getCells_def cells_snd_spawnNew)

theorem spawnNew_result_only_alive_witness:
  "getCells (snd (spawnNew blinkerRow)) \<noteq> [] \<and>
   list_all hasLife (getCells (snd (spawnNew blinkerRow)))"
proof -
  have "getCells (snd (spawnNew blinkerRow)) \<noteq> []" by code_simp
  with spawnNew_result_only_alive [of blinkerRow] show ?thesis
    by (simp only: list_all_iff simp_thms)
qed

text \<open>
  Claim C7: after \<^verbatim>\<open>spawnNew()\<close> the receiver stores exactly the cells that were alive
  in it before the call, in their order, so the receiver and the returned field both
  store only alive cells.
\<close>

theorem spawnNew_prunes_receiver:
  "cells (fst (spawnNew this)) = filter hasLife (cells this) \<and>
   (\<forall>cell \<in> set (cells (fst (spawnNew this))). hasLife cell) \<and>
   (\<forall>cell \<in> set (cells (snd (spawnNew this))). hasLife cell)"
  by (simp add: cells_fst_spawnNew cells_snd_spawnNew)

theorem spawnNew_prunes_receiver_witness:
  "cells (fst (spawnNew mixedField)) =
     [\<lparr> x = 0, y = 0, hasLife = True \<rparr>, \<lparr> x = 1, y = 0, hasLife = True \<rparr>,
      \<lparr> x = 0, y = 1, hasLife = True \<rparr>] \<and>
   list_all hasLife (cells (fst (spawnNew mixedField))) \<and>
   cells (snd (spawnNew mixedField)) \<noteq> [] \<and>
   list_all hasLife (cells (snd (spawnNew mixedField)))"
proof -
  have a: "filter hasLife (cells mixedField) =
          [\<lparr> x = 0, y = 0, hasLife = True \<rparr>, \<lparr> x = 1, y = 0, hasLife = True \<rparr>,
           \<lparr> x = 0, y = 1, hasLife = True \<rparr>]"
    by (simp add: mixedField_def PlayingField_new_def)
  have b: "cells (snd (spawnNew mixedField)) \<noteq> []" by code_simp
  note c = spawnNew_prunes_receiver [of mixedField]
  from c have "cells (fst (spawnNew mixedField)) = filter hasLife (cells mixedField)"
    by (rule conjunct1)
  then have d: "cells (fst (spawnNew mixedField)) =
     [\<lparr> x = 0, y = 0, hasLife = True \<rparr>, \<lparr> x = 1, y = 0, hasLife = True \<rparr>,
      \<lparr> x = 0, y = 1, hasLife = True \<rparr>]" by (simp only: a)
  from c have e: "list_all hasLife (cells (fst (spawnNew mixedField)))"
    and f: "list_all hasLife (cells (snd (spawnNew mixedField)))"
    unfolding list_all_iff by blast+
  from b d e f show ?thesis by blast
qed

section \<open>The generation step is Conway's rule\<close>

lemma mooreNeighbors_sym: "d \<in> mooreNeighbors c \<Longrightarrow> c \<in> mooreNeighbors d"
  by (auto simp: mooreNeighbors_def)

lemma liveSet_expand: "liveSet (expandCellsWithNeighbors this) = liveSet this"
  by (simp add: liveSet_def appendsDead_hasLifeAt [OF appendsDead_expand])

lemma mem_liveSet_iff:
  "(a, b) \<in> liveSet this \<longleftrightarrow>
     (\<exists>cell \<in> set (cells this). x cell = a \<and> y cell = b \<and> hasLife cell)"
  by (simp add: liveSet_def hasLifeAt_iff)

lemma liveCellsSafe_iff: "liveCellsSafe this \<longleftrightarrow> liveSet this \<subseteq> safeCoords"
proof
  assume safe: "liveCellsSafe this"
  show "liveSet this \<subseteq> safeCoords"
  proof
    fix c assume c: "c \<in> liveSet this"
    obtain a b where ab: "c = (a, b)" by (cases c)
    from c obtain cell where "cell \<in> set (cells this)" "x cell = a" "y cell = b" "hasLife cell"
      unfolding ab mem_liveSet_iff by blast
    with safe show "c \<in> safeCoords"
      unfolding ab by (auto simp: liveCellsSafe_def list_all_iff safeCoords_def)
  qed
next
  assume sub: "liveSet this \<subseteq> safeCoords"
  have "safeInteger (x cell) \<and> safeInteger (y cell)"
    if "cell \<in> set (cells this)" "hasLife cell" for cell
  proof -
    from that have "(x cell, y cell) \<in> liveSet this" unfolding mem_liveSet_iff by blast
    with sub show ?thesis by (auto simp: safeCoords_def)
  qed
  then show "liveCellsSafe this" by (simp add: liveCellsSafe_def list_all_iff)
qed

lemma mem_liveSet_spawnNew:
  assumes "liveSet this \<subseteq> safeCoords"
  shows "(a, b) \<in> liveSet (snd (spawnNew this)) \<longleftrightarrow>
     (\<exists>cell \<in> set (cells (expandCellsWithNeighbors this)). x cell = a \<and> y cell = b \<and>
        (let n = card (mooreNeighbors (a, b) \<inter> liveSet this)
         in (n = 2 \<and> hasLife cell) \<or> n = 3))"
proof -
  have E: "liveSet (expandCellsWithNeighbors this) \<subseteq> safeCoords"
    using assms by (simp only: liveSet_expand)
  show ?thesis
    by (auto simp: mem_liveSet_iff cells_snd_spawnNew cellLivesNextRound_def
        countNeighbors_card [OF E] coordsOf_def liveSet_expand Let_def)
qed

lemma candidate_of_live_neighbor:
  assumes "d \<in> mooreNeighbors (a, b)" and "d \<in> liveSet this"
    and safe: "liveSet this \<subseteq> safeCoords"
  shows "\<exists>cell \<in> set (cells (expandCellsWithNeighbors this)). x cell = a \<and> y cell = b"
proof -
  obtain p q where d: "d = (p, q)" by (cases d)
  from assms(2) obtain cell0 where c0: "cell0 \<in> set (cells this)"
    and xy: "x cell0 = p" "y cell0 = q"
    unfolding d mem_liveSet_iff by blast
  from assms(1) have "(a, b) \<in> mooreNeighbors (p, q)"
    unfolding d by (rule mooreNeighbors_sym)
  then obtain i j where ij: "(i, j) \<in> set neighborOffsets" and ab: "a = p + i" "b = q + j"
    unfolding mooreNeighbors_offsets by auto
  from ij have small: "\<bar>i\<bar> \<le> 1" "\<bar>j\<bar> \<le> 1" by (auto simp: neighborOffsets_def)
  from assms(2) safe have "\<bar>p\<bar> \<le> 2 ^ 53 - 1" "\<bar>q\<bar> \<le> 2 ^ 53 - 1"
    unfolding d by (auto simp: safeCoords_def safeInteger_def maxSafeInteger_def)
  with small have "\<bar>p + i\<bar> \<le> 2 ^ 53" "\<bar>q + j\<bar> \<le> 2 ^ 53" by simp_all
  then have exact: "numberAdd p i = a" "numberAdd q j = b"
    by (simp_all add: numberAdd_exact ab)
  from hasCellAt_expand [OF c0 ij] show ?thesis
    unfolding hasCellAt_iff by (simp add: xy exact)
qed

lemma spawnNew_conway:
  assumes safe: "liveSet this \<subseteq> safeCoords"
  shows "liveSet (snd (spawnNew this)) = conwayStep (liveSet this)"
proof (rule set_eqI)
  fix c :: "int \<times> int"
  obtain a b where c: "c = (a, b)" by (cases c)
  let ?E = "expandCellsWithNeighbors this"
  let ?n = "card (mooreNeighbors (a, b) \<inter> liveSet this)"
  show "c \<in> liveSet (snd (spawnNew this)) \<longleftrightarrow> c \<in> conwayStep (liveSet this)"
  proof
    assume "c \<in> liveSet (snd (spawnNew this))"
    then obtain cell where cell: "cell \<in> set (cells ?E)" "x cell = a" "y cell = b"
      and rule: "(?n = 2 \<and> hasLife cell) \<or> ?n = 3"
      unfolding c mem_liveSet_spawnNew [OF safe] Let_def by blast
    from rule show "c \<in> conwayStep (liveSet this)"
    proof
      assume two: "?n = 2 \<and> hasLife cell"
      with cell have "(a, b) \<in> liveSet ?E" unfolding mem_liveSet_iff by blast
      then have "(a, b) \<in> liveSet this" by (simp only: liveSet_expand)
      with two show ?thesis by (simp add: conwayStep_def c)
    next
      assume "?n = 3"
      then show ?thesis by (simp add: conwayStep_def c)
    qed
  next
    assume "c \<in> conwayStep (liveSet this)"
    then have rule: "?n = 3 \<or> (?n = 2 \<and> (a, b) \<in> liveSet this)"
      by (simp add: conwayStep_def c)
    then show "c \<in> liveSet (snd (spawnNew this))"
    proof
      assume three: "?n = 3"
      then have "mooreNeighbors (a, b) \<inter> liveSet this \<noteq> {}" by auto
      then obtain d where "d \<in> mooreNeighbors (a, b)" "d \<in> liveSet this" by blast
      then obtain cell where "cell \<in> set (cells ?E)" "x cell = a" "y cell = b"
        using candidate_of_live_neighbor safe by blast
      with three show ?thesis unfolding c mem_liveSet_spawnNew [OF safe] Let_def by blast
    next
      assume two: "?n = 2 \<and> (a, b) \<in> liveSet this"
      then obtain cell where "cell \<in> set (cells this)" "x cell = a" "y cell = b" "hasLife cell"
        unfolding mem_liveSet_iff by blast
      moreover have "set (cells this) \<subseteq> set (cells ?E)"
        by (rule appendsDead_subset) (rule appendsDead_expand)
      ultimately show ?thesis using two unfolding c mem_liveSet_spawnNew [OF safe] Let_def by blast
    qed
  qed
qed

lemma liveSet_cells:
  "liveSet this = coordsOf ` set (filter hasLife (cells this))"
proof (rule set_eqI)
  fix c :: "int \<times> int"
  obtain a b where c: "c = (a, b)" by (cases c)
  show "c \<in> liveSet this \<longleftrightarrow> c \<in> coordsOf ` set (filter hasLife (cells this))"
    unfolding c mem_liveSet_iff by (auto simp: coordsOf_def image_iff)
qed

text \<open>
  Claim C1, with the range it holds in: for every field whose stored cells have pairwise
  distinct coordinates and whose alive cells all have safe integer coordinates
  (magnitude at most \<open>2^53 - 1\<close>), the live-cell set of the field returned by
  \<^verbatim>\<open>spawnNew()\<close> is the standard Conway step of the live-cell set of the receiver before
  the call.  Lifeless cells may lie anywhere.  The proof, lemma \<open>spawnNew_conway\<close>, does
  not use the distinctness: a lifeless duplicate of a coordinate never adds life, and an
  alive one is judged by the same neighbour count.
\<close>

theorem spawnNew_is_conwayStep:
  assumes "distinctCoords this" and "liveCellsSafe this"
  shows "liveSet (snd (spawnNew this)) = conwayStep (liveSet this)"
  using assms(2) unfolding liveCellsSafe_iff by (rule spawnNew_conway)

theorem spawnNew_is_conwayStep_witness:
  "distinctCoords blinkerRow \<and> liveCellsSafe blinkerRow \<and>
   liveSet (snd (spawnNew blinkerRow)) = conwayStep (liveSet blinkerRow)"
proof -
  have d: "distinctCoords blinkerRow"
    by (simp add: distinctCoords_def blinkerRow_def PlayingField_new_def coordsOf_def)
  have l: "liveCellsSafe blinkerRow"
    by (simp add: liveCellsSafe_def blinkerRow_def PlayingField_new_def safeInteger_def
          maxSafeInteger_def)
  from d l spawnNew_is_conwayStep [OF d l] show ?thesis by simp
qed

text \<open>
  Claim C1 as stated, for every field with pairwise distinct coordinates, fails where
  \<^verbatim>\<open>x + 1\<close> is no longer exact.  In the field of the two alive cells \<open>(2^53, 0)\<close> and
  \<open>(2^53, 1)\<close> each cell has one alive Moore neighbour, so Conway's rule lets both die;
  the code computes \<^verbatim>\<open>x + 1 === x\<close>, counts the cell itself and its neighbour a second
  time in the column \<open>i = 1\<close>, finds three neighbours and keeps both alive.
\<close>

theorem spawnNew_not_conwayStep_at_2_53:
  "distinctCoords bigField \<and>
   (2 ^ 53, 0) \<in> liveSet (snd (spawnNew bigField)) \<and>
   (2 ^ 53, 0) \<notin> conwayStep (liveSet bigField)"
proof -
  have d: "distinctCoords bigField"
    by (simp add: distinctCoords_def bigField_def PlayingField_new_def coordsOf_def)
  have "hasLifeAt (snd (spawnNew bigField)) \<lparr> x = 2 ^ 53, y = 0 \<rparr>" by code_simp
  then have alive: "(2 ^ 53, 0) \<in> liveSet (snd (spawnNew bigField))"
    by (simp add: liveSet_def)
  have live: "liveSet bigField = {(2 ^ 53, 0), (2 ^ 53, 1)}"
    by (simp add: liveSet_cells bigField_def PlayingField_new_def coordsOf_def)
  have "card (mooreNeighbors (2 ^ 53, 0) \<inter> liveSet bigField) = 1"
    by (simp add: card_mooreNeighbors_Int live neighborOffsets_def)
  then have dead: "(2 ^ 53, 0) \<notin> conwayStep (liveSet bigField)"
    by (simp add: conwayStep_def)
  from d alive dead show ?thesis by simp
qed

section \<open>The blinker\<close>

lemma blinker_step1:
  "cells (snd (spawnNew blinkerRow)) =
     [\<lparr> x = 1, y = 0, hasLife = True \<rparr>, \<lparr> x = 1, y = - 1, hasLife = True \<rparr>,
      \<lparr> x = 1, y = 1, hasLife = True \<rparr>]"
  by code_simp

lemma blinker_step2:
  "cells (snd (spawnNew (snd (spawnNew blinkerRow)))) =
     [\<lparr> x = 1, y = 0, hasLife = True \<rparr>, \<lparr> x = 0, y = 0, hasLife = True \<rparr>,
      \<lparr> x = 2, y = 0, hasLife = True \<rparr>]"
  by code_simp

lemma blinker_concrete:
  "liveSet blinkerRow = {(0, 0), (1, 0), (2, 0)} \<and>
   liveSet (snd (spawnNew blinkerRow)) = {(1, - 1), (1, 0), (1, 1)} \<and>
   liveSet (snd (spawnNew (snd (spawnNew blinkerRow)))) = {(0, 0), (1, 0), (2, 0)}"
proof -
  have g1: "liveSet blinkerRow = {(0, 0), (1, 0), (2, 0)}"
    by (simp add: liveSet_cells blinkerRow_def PlayingField_new_def coordsOf_def)
  have g2: "liveSet (snd (spawnNew blinkerRow)) = {(1, - 1), (1, 0), (1, 1)}"
    by (simp add: liveSet_cells blinker_step1 coordsOf_def insert_commute)
  have g3: "liveSet (snd (spawnNew (snd (spawnNew blinkerRow)))) = {(0, 0), (1, 0), (2, 0)}"
    by (simp add: liveSet_cells blinker_step2 coordsOf_def insert_commute)
  from g1 g2 g3 show ?thesis by simp
qed

lemma safe_row: "{(0, 0), (1, 0), (2, 0)} \<subseteq> safeCoords"
  by (simp add: safeCoords_def safeInteger_def maxSafeInteger_def)

lemma safe_column: "{(1, - 1), (1, 0), (1, 1)} \<subseteq> safeCoords"
  by (simp add: safeCoords_def safeInteger_def maxSafeInteger_def)

lemma conwayStep_row: "conwayStep {(0, 0), (1, 0), (2, 0)} = {(1, - 1), (1, 0), (1, 1)}"
proof -
  have "liveSet blinkerRow \<subseteq> safeCoords"
    by (simp only: blinker_concrete safe_row)
  then have "liveSet (snd (spawnNew blinkerRow)) = conwayStep (liveSet blinkerRow)"
    by (rule spawnNew_conway)
  then show ?thesis by (simp only: blinker_concrete)
qed

lemma conwayStep_column: "conwayStep {(1, - 1), (1, 0), (1, 1)} = {(0, 0), (1, 0), (2, 0)}"
proof -
  have "liveSet (snd (spawnNew blinkerRow)) \<subseteq> safeCoords"
    by (simp only: blinker_concrete safe_column)
  then have "liveSet (snd (spawnNew (snd (spawnNew blinkerRow)))) =
          conwayStep (liveSet (snd (spawnNew blinkerRow)))"
    by (rule spawnNew_conway)
  then show ?thesis by (simp only: blinker_concrete)
qed

text \<open>
  Claim C5: for a field whose live cells are exactly \<open>(0,0), (1,0), (2,0)\<close>, one
  \<^verbatim>\<open>spawnNew()\<close> returns a field whose live cells are exactly \<open>(1,-1), (1,0), (1,1)\<close>,
  and \<^verbatim>\<open>spawnNew()\<close> on that result returns a field whose live-cell set is the original
  row.  The field may store lifeless cells at any coordinates, large ones included.
\<close>

theorem blinker_oscillates:
  assumes "liveSet this = {(0, 0), (1, 0), (2, 0)}"
  shows "liveSet (snd (spawnNew this)) = {(1, - 1), (1, 0), (1, 1)} \<and>
         liveSet (snd (spawnNew (snd (spawnNew this)))) = liveSet this"
proof -
  have s0: "liveSet this \<subseteq> safeCoords"
    by (simp only: assms safe_row)
  have one: "liveSet (snd (spawnNew this)) = {(1, - 1), (1, 0), (1, 1)}"
    by (simp only: spawnNew_conway [OF s0] assms conwayStep_row)
  have s1: "liveSet (snd (spawnNew this)) \<subseteq> safeCoords"
    by (simp only: one safe_column)
  have "liveSet (snd (spawnNew (snd (spawnNew this)))) = {(0, 0), (1, 0), (2, 0)}"
    by (simp only: spawnNew_conway [OF s1] one conwayStep_column)
  with one assms show ?thesis by simp
qed

theorem blinker_oscillates_witness:
  "liveSet blinkerRow = {(0, 0), (1, 0), (2, 0)} \<and>
   liveSet (snd (spawnNew blinkerRow)) = {(1, - 1), (1, 0), (1, 1)} \<and>
   liveSet (snd (spawnNew (snd (spawnNew blinkerRow)))) = liveSet blinkerRow"
proof -
  have row: "liveSet blinkerRow = {(0, 0), (1, 0), (2, 0)}"
    using blinker_concrete by (rule conjunct1)
  from row blinker_oscillates [OF row] show ?thesis by (rule conjI)
qed

section \<open>Finding, adding and killing\<close>

lemma findIndexFrom_none:
  "(\<forall>a \<in> set xs. \<not> P a) \<Longrightarrow> findIndexFrom k P xs = - 1"
  by (induction xs arbitrary: k) auto

lemma findIndexFrom_some:
  "\<exists>a \<in> set xs. P a \<Longrightarrow>
     \<exists>n < length xs. findIndexFrom k P xs = k + int n \<and> P (xs ! n) \<and> (\<forall>m < n. \<not> P (xs ! m))"
proof (induction xs arbitrary: k)
  case Nil
  then show ?case by simp
next
  case (Cons a as)
  show ?case
  proof (cases "P a")
    case True
    then have "findIndexFrom k P (a # as) = k + int 0 \<and> P ((a # as) ! 0) \<and>
                 (\<forall>m < 0. \<not> P ((a # as) ! m))"
      by simp
    then show ?thesis by blast
  next
    case False
    with Cons.prems have "\<exists>b \<in> set as. P b" by simp
    from Cons.IH [OF this, of "k + 1"] obtain n where n: "n < length as"
      "findIndexFrom (k + 1) P as = k + 1 + int n" "P (as ! n)" "\<forall>m < n. \<not> P (as ! m)"
      by blast
    have "\<forall>m < Suc n. \<not> P ((a # as) ! m)"
      using False n(4) by (simp add: nth_Cons' less_Suc_eq_0_disj) auto
    with n False have "Suc n < length (a # as) \<and>
        findIndexFrom k P (a # as) = k + int (Suc n) \<and> P ((a # as) ! Suc n) \<and>
        (\<forall>m < Suc n. \<not> P ((a # as) ! m))"
      by simp
    then show ?thesis by blast
  qed
qed

lemma findIndex_none: "(\<forall>a \<in> set xs. \<not> P a) \<Longrightarrow> findIndex P xs = - 1"
  by (simp add: findIndex_def findIndexFrom_none)

lemma findIndex_some:
  "\<exists>a \<in> set xs. P a \<Longrightarrow>
     \<exists>n < length xs. findIndex P xs = int n \<and> P (xs ! n) \<and> (\<forall>m < n. \<not> P (xs ! m))"
  using findIndexFrom_some [of xs P 0] by (simp add: findIndex_def)

lemma array_splice_one:
  "n < length xs \<Longrightarrow> array_splice (int n) 1 xs = take n xs @ drop (Suc n) xs"
  by (simp add: array_splice_def Let_def nat_add_distrib)

lemma findCellAt_absent:
  "\<not> hasCellAt this c \<Longrightarrow> findCellAt this c = - 1"
  by (simp add: findCellAt_def hasCellAt_iff findIndex_none)

lemma findCellAt_present:
  assumes "hasCellAt this c"
  shows "\<exists>n < length (cells this). findCellAt this c = int n \<and>
           x (cells this ! n) = x c \<and> y (cells this ! n) = y c"
proof -
  from assms have "\<exists>cell \<in> set (cells this). x cell = x c \<and> y cell = y c"
    by (simp add: hasCellAt_iff)
  from findIndex_some [of "cells this" "\<lambda>cell. x cell = x c \<and> y cell = y c", OF this]
  show ?thesis unfolding findCellAt_def by blast
qed

lemma addLifeAt_absent:
  "\<not> hasCellAt this c \<Longrightarrow>
     cells (addLifeAt this c) = cells this @ [\<lparr> x = x c, y = y c, hasLife = True \<rparr>]"
  by (simp add: addLifeAt_def findCellAt_absent)

lemma addLifeAt_present:
  assumes "hasCellAt this c"
  shows "\<exists>n < length (cells this). x (cells this ! n) = x c \<and> y (cells this ! n) = y c \<and>
           cells (addLifeAt this c) = (cells this)[n := (cells this ! n)\<lparr> hasLife := True \<rparr>]"
proof -
  from findCellAt_present [OF assms] obtain n where n: "n < length (cells this)"
    "findCellAt this c = int n" "x (cells this ! n) = x c" "y (cells this ! n) = y c"
    by blast
  then have "cells (addLifeAt this c) = (cells this)[n := (cells this ! n)\<lparr> hasLife := True \<rparr>]"
    by (auto simp: addLifeAt_def)
  with n show ?thesis by blast
qed

lemma killLifeAt_absent: "\<not> hasCellAt this c \<Longrightarrow> killLifeAt this c = this"
  by (simp add: killLifeAt_def findCellAt_absent)

lemma killLifeAt_present:
  assumes "hasCellAt this c"
  shows "\<exists>n < length (cells this). x (cells this ! n) = x c \<and> y (cells this ! n) = y c \<and>
           cells (killLifeAt this c) = take n (cells this) @ drop (Suc n) (cells this)"
proof -
  from findCellAt_present [OF assms] obtain n where n: "n < length (cells this)"
    "findCellAt this c = int n" "x (cells this ! n) = x c" "y (cells this ! n) = y c"
    by blast
  then have "cells (killLifeAt this c) = take n (cells this) @ drop (Suc n) (cells this)"
    by (auto simp: killLifeAt_def array_splice_one)
  with n show ?thesis by blast
qed

lemma hasLifeAt_same_coords:
  "x c' = x c \<Longrightarrow> y c' = y c \<Longrightarrow> hasLifeAt this c' = hasLifeAt this c"
  by (simp add: hasLifeAt_iff)

lemma hasCellAt_coordsOf:
  "hasCellAt this c \<longleftrightarrow> coordsOf c \<in> set (map coordsOf (cells this))"
proof
  assume "hasCellAt this c"
  then obtain cell where "cell \<in> set (cells this)" "x cell = x c" "y cell = y c"
    unfolding hasCellAt_iff by blast
  then have "cell \<in> set (cells this)" "coordsOf c = coordsOf cell"
    by (simp_all add: coordsOf_def)
  then show "coordsOf c \<in> set (map coordsOf (cells this))"
    unfolding set_map by (rule rev_image_eqI)
next
  assume "coordsOf c \<in> set (map coordsOf (cells this))"
  then obtain cell where "cell \<in> set (cells this)" "coordsOf c = coordsOf cell"
    unfolding set_map by blast
  then have "cell \<in> set (cells this)" "x cell = x c \<and> y cell = y c"
    by (simp_all add: coordsOf_def)
  then show "hasCellAt this c" unfolding hasCellAt_iff by blast
qed

lemma hasLifeAt_imp_hasCellAt: "hasLifeAt this c \<Longrightarrow> hasCellAt this c"
  by (auto simp: hasLifeAt_iff hasCellAt_iff)

lemma coordsOf_set_hasLife [simp]: "coordsOf (cell\<lparr> hasLife := b \<rparr>) = coordsOf cell"
  by (simp add: coordsOf_def)

lemma map_coordsOf_update:
  "map coordsOf (xs[n := (xs ! n)\<lparr> hasLife := True \<rparr>]) = map coordsOf xs"
  by (cases "n < length xs") (simp_all add: map_update list_update_same_conv list_update_beyond)

subsection \<open>addLifeAt\<close>

lemma distinctCoords_addLifeAt:
  assumes "distinctCoords this"
  shows "distinctCoords (addLifeAt this c)"
proof (cases "hasCellAt this c")
  case True
  from addLifeAt_present [OF True] obtain n where
    "cells (addLifeAt this c) = (cells this)[n := (cells this ! n)\<lparr> hasLife := True \<rparr>]"
    by blast
  with assms show ?thesis by (simp add: distinctCoords_def map_coordsOf_update)
next
  case False
  then have "coordsOf c \<notin> set (map coordsOf (cells this))"
    by (simp add: hasCellAt_coordsOf)
  with assms show ?thesis
    by (simp add: distinctCoords_def addLifeAt_absent [OF False] coordsOf_def)
qed

lemma hasLifeAt_addLifeAt_same: "hasLifeAt (addLifeAt this c) c"
proof (cases "hasCellAt this c")
  case True
  from addLifeAt_present [OF True] obtain n where n: "n < length (cells this)"
    "x (cells this ! n) = x c" "y (cells this ! n) = y c"
    "cells (addLifeAt this c) = (cells this)[n := (cells this ! n)\<lparr> hasLife := True \<rparr>]"
    by blast
  let ?v = "(cells this ! n)\<lparr> hasLife := True \<rparr>"
  have "?v \<in> set (cells (addLifeAt this c))"
    using n(1) by (simp add: n(4) set_update_memI)
  moreover have "x ?v = x c \<and> y ?v = y c \<and> hasLife ?v" using n(2,3) by simp
  ultimately show ?thesis unfolding hasLifeAt_iff by blast
next
  case False
  show ?thesis by (simp add: hasLifeAt_iff addLifeAt_absent [OF False])
qed

lemma hasLifeAt_addLifeAt_other:
  assumes "coordsOf c' \<noteq> coordsOf c"
  shows "hasLifeAt (addLifeAt this c) c' = hasLifeAt this c'"
proof (cases "hasCellAt this c")
  case True
  from addLifeAt_present [OF True] obtain n where n: "n < length (cells this)"
    "x (cells this ! n) = x c" "y (cells this ! n) = y c"
    "cells (addLifeAt this c) = (cells this)[n := (cells this ! n)\<lparr> hasLife := True \<rparr>]"
    by blast
  let ?P = "\<lambda>cell. x cell = x c' \<and> y cell = y c' \<and> hasLife cell"
  have len: "length (cells (addLifeAt this c)) = length (cells this)" by (simp add: n(4))
  have "?P (cells (addLifeAt this c) ! m) = ?P (cells this ! m)" if "m < length (cells this)" for m
  proof (cases "m = n")
    case True
    with assms n show ?thesis by (auto simp: coordsOf_def)
  next
    case False
    then show ?thesis by (simp add: n(4))
  qed
  then have "(\<exists>m < length (cells (addLifeAt this c)). ?P (cells (addLifeAt this c) ! m)) =
             (\<exists>m < length (cells this). ?P (cells this ! m))"
    unfolding len by blast
  then show ?thesis unfolding hasLifeAt_iff Bex_def in_set_conv_nth by blast
next
  case False
  with assms show ?thesis
    by (auto simp: hasLifeAt_iff addLifeAt_absent [OF False] coordsOf_def)
qed

subsection \<open>killLifeAt\<close>

lemma distinct_map_remove_nth:
  "distinct (map f xs) \<Longrightarrow> distinct (map f (take n xs @ drop (Suc n) xs))"
proof -
  assume d: "distinct (map f xs)"
  have "set (take n (map f xs)) \<inter> set (drop (Suc n) (map f xs)) = {}"
    using d by (rule set_take_disj_set_drop_if_distinct) simp
  with d show ?thesis
    by (simp add: take_map [symmetric] drop_map [symmetric] del: take_map drop_map)
qed

lemma distinctCoords_killLifeAt:
  assumes "distinctCoords this"
  shows "distinctCoords (killLifeAt this c)"
proof (cases "hasCellAt this c")
  case True
  from killLifeAt_present [OF True] obtain n where
    "cells (killLifeAt this c) = take n (cells this) @ drop (Suc n) (cells this)"
    by blast
  with assms show ?thesis by (simp only: distinctCoords_def distinct_map_remove_nth)
next
  case False
  with assms show ?thesis by (simp add: killLifeAt_absent)
qed

lemma hasLifeAt_killLifeAt_other:
  assumes "coordsOf c' \<noteq> coordsOf c"
  shows "hasLifeAt (killLifeAt this c) c' = hasLifeAt this c'"
proof (cases "hasCellAt this c")
  case True
  from killLifeAt_present [OF True] obtain n where n: "n < length (cells this)"
    "x (cells this ! n) = x c" "y (cells this ! n) = y c"
    "cells (killLifeAt this c) = take n (cells this) @ drop (Suc n) (cells this)"
    by blast
  have split: "cells this = take n (cells this) @ (cells this ! n) # drop (Suc n) (cells this)"
    using n(1) by (rule id_take_nth_drop)
  have "set (cells this) =
          insert (cells this ! n) (set (take n (cells this)) \<union> set (drop (Suc n) (cells this)))"
    by (subst split) (simp del: append_take_drop_id)
  moreover have "\<not> (x (cells this ! n) = x c' \<and> y (cells this ! n) = y c')"
    using assms n(2,3) by (auto simp: coordsOf_def)
  ultimately show ?thesis unfolding hasLifeAt_iff n(4) by auto
next
  case False
  then show ?thesis by (simp add: killLifeAt_absent)
qed

lemma hasLifeAt_killLifeAt_same:
  assumes "distinctCoords this"
  shows "\<not> hasLifeAt (killLifeAt this c) c"
proof (cases "hasCellAt this c")
  case True
  from killLifeAt_present [OF True] obtain n where n: "n < length (cells this)"
    "x (cells this ! n) = x c" "y (cells this ! n) = y c"
    "cells (killLifeAt this c) = take n (cells this) @ drop (Suc n) (cells this)"
    by blast
  let ?ys = "map coordsOf (cells this)"
  have n': "n < length ?ys" using n(1) by simp
  have "?ys = take n ?ys @ (?ys ! n) # drop (Suc n) ?ys"
    using n' by (rule id_take_nth_drop)
  moreover have "distinct ?ys" using assms by (simp add: distinctCoords_def)
  ultimately have "distinct (take n ?ys @ (?ys ! n) # drop (Suc n) ?ys)" by simp
  then have "?ys ! n \<notin> set (take n ?ys) \<union> set (drop (Suc n) ?ys)" by auto
  moreover have "?ys ! n = coordsOf c" using n by (simp add: coordsOf_def)
  ultimately have "coordsOf c \<notin> set (map coordsOf (cells (killLifeAt this c)))"
    by (simp add: n(4) take_map drop_map)
  then have "\<not> hasCellAt (killLifeAt this c) c" by (simp add: hasCellAt_coordsOf)
  then show ?thesis using hasLifeAt_imp_hasCellAt by blast
next
  case False
  then show ?thesis using hasLifeAt_imp_hasCellAt by (auto simp: killLifeAt_absent)
qed

subsection \<open>toggleCell\<close>

lemma distinctCoords_toggleCell:
  "distinctCoords this \<Longrightarrow> distinctCoords (toggleCell this c)"
  by (simp add: toggleCell_def distinctCoords_addLifeAt distinctCoords_killLifeAt)

lemma hasLifeAt_toggleCell_same:
  "distinctCoords this \<Longrightarrow> hasLifeAt (toggleCell this c) c \<longleftrightarrow> \<not> hasLifeAt this c"
  by (simp add: toggleCell_def hasLifeAt_addLifeAt_same hasLifeAt_killLifeAt_same)

lemma hasLifeAt_toggleCell_other:
  "coordsOf c' \<noteq> coordsOf c \<Longrightarrow> hasLifeAt (toggleCell this c) c' = hasLifeAt this c'"
  by (simp add: toggleCell_def hasLifeAt_addLifeAt_other hasLifeAt_killLifeAt_other)

lemma hasLifeAt_toggleCell_twice:
  assumes "distinctCoords this"
  shows "hasLifeAt (toggleCell (toggleCell this c) c) c' = hasLifeAt this c'"
proof (cases "coordsOf c' = coordsOf c")
  case True
  then have same: "x c' = x c" "y c' = y c" by (simp_all add: coordsOf_def)
  have "hasLifeAt (toggleCell (toggleCell this c) c) c = hasLifeAt this c"
    by (simp add: hasLifeAt_toggleCell_same assms distinctCoords_toggleCell)
  then show ?thesis by (simp only: hasLifeAt_same_coords [OF same])
next
  case False
  then show ?thesis by (simp add: hasLifeAt_toggleCell_other)
qed

section \<open>Uniqueness of coordinates\<close>

lemma distinctCoords_expandStep:
  "distinctCoords this \<Longrightarrow> distinctCoords (expandStep cell i j this)"
  by (simp add: expandStep_def distinctCoords_def hasCellAt_coordsOf) (simp add: coordsOf_def)

lemma distinctCoords_expandAround:
  assumes "distinctCoords this"
  shows "distinctCoords (expandAround cell this)"
proof -
  have row: "distinctCoords (fold (expandStep cell i) [- 1, 0, 1] t)" if "distinctCoords t" for i t
    by (rule fold_preserve [where Q = distinctCoords])
       (rule distinctCoords_expandStep, assumption, rule that)
  show ?thesis
    unfolding expandAround_steps
    by (rule fold_preserve [where Q = distinctCoords]) (rule row, assumption, rule assms)
qed

lemma distinctCoords_expand:
  assumes "distinctCoords this"
  shows "distinctCoords (expandCellsWithNeighbors this)"
  unfolding expandCellsWithNeighbors_def
  by (rule fold_preserve [where Q = distinctCoords])
     (rule distinctCoords_expandAround, assumption, rule assms)

lemma distinctCoords_fst_spawnNew:
  "distinctCoords this \<Longrightarrow> distinctCoords (fst (spawnNew this))"
  by (simp add: distinctCoords_def cells_fst_spawnNew distinct_map_filter)

lemma distinctCoords_snd_spawnNew:
  assumes "distinctCoords this"
  shows "distinctCoords (snd (spawnNew this))"
proof -
  let ?E = "expandCellsWithNeighbors this"
  let ?g = "\<lambda>cell. \<lparr> x = x cell, y = y cell, hasLife = cellLivesNextRound ?E cell \<rparr>"
  have "map coordsOf (map ?g (cells ?E)) = map coordsOf (cells ?E)"
    by (simp add: coordsOf_def)
  moreover have "distinct (map coordsOf (cells ?E))"
    using distinctCoords_expand [OF assms] by (simp add: distinctCoords_def)
  ultimately have "distinct (map coordsOf (map ?g (cells ?E)))" by (simp only:)
  then have "distinct (map coordsOf (filter hasLife (map ?g (cells ?E))))"
    by (rule distinct_map_filter)
  then show ?thesis by (simp only: distinctCoords_def cells_snd_spawnNew)
qed

lemma distinctCoords_getClone: "distinctCoords this \<Longrightarrow> distinctCoords (getClone this)"
  by (simp add: distinctCoords_def getClone_def getCells_def PlayingField_new_def)

lemma distinctCoords_mixedField: "distinctCoords mixedField"
  by (simp add: distinctCoords_def mixedField_def PlayingField_new_def coordsOf_def)

lemma distinctCoords_placeholderField: "distinctCoords placeholderField"
  by (simp add: distinctCoords_def placeholderField_def PlayingField_new_def coordsOf_def)

text \<open>
  Claim C3: uniqueness of coordinates among the stored cells is kept by every operation:
  \<^verbatim>\<open>toggleCell\<close>, \<^verbatim>\<open>addLifeAt\<close>, \<^verbatim>\<open>killLifeAt\<close>, \<^verbatim>\<open>spawnNew\<close> (in the receiver as the call
  leaves it and in the returned field) and \<^verbatim>\<open>getClone\<close>.
\<close>

theorem coordinate_uniqueness_preserved:
  assumes "distinctCoords this"
  shows "distinctCoords (toggleCell this c) \<and> distinctCoords (addLifeAt this c) \<and>
         distinctCoords (killLifeAt this c) \<and> distinctCoords (fst (spawnNew this)) \<and>
         distinctCoords (snd (spawnNew this)) \<and> distinctCoords (getClone this)"
  using assms
  by (simp add: distinctCoords_toggleCell distinctCoords_addLifeAt distinctCoords_killLifeAt
        distinctCoords_fst_spawnNew distinctCoords_snd_spawnNew distinctCoords_getClone)

theorem coordinate_uniqueness_preserved_witness:
  "distinctCoords mixedField \<and>
   distinctCoords (toggleCell mixedField \<lparr> x = 1, y = 1 \<rparr>) \<and>
   distinctCoords (addLifeAt mixedField \<lparr> x = 1, y = 1 \<rparr>) \<and>
   distinctCoords (killLifeAt mixedField \<lparr> x = 1, y = 1 \<rparr>) \<and>
   distinctCoords (fst (spawnNew mixedField)) \<and>
   distinctCoords (snd (spawnNew mixedField)) \<and> distinctCoords (getClone mixedField)"
  using distinctCoords_mixedField
    coordinate_uniqueness_preserved [OF distinctCoords_mixedField, of "\<lparr> x = 1, y = 1 \<rparr>"]
  by (rule conjI)

text \<open>
  Claim C10: on a field with pairwise distinct coordinates, one \<^verbatim>\<open>toggleCell(c)\<close> negates
  \<^verbatim>\<open>hasLifeAt(c)\<close> (a stored lifeless entry at \<open>c\<close> becomes alive) and leaves
  \<^verbatim>\<open>hasLifeAt\<close> unchanged at every other coordinate.
\<close>

theorem toggleCell_flips_only_target:
  assumes "distinctCoords this"
  shows "(hasLifeAt (toggleCell this c) c \<longleftrightarrow> \<not> hasLifeAt this c) \<and>
         (coordsOf c' \<noteq> coordsOf c \<longrightarrow>
            hasLifeAt (toggleCell this c) c' = hasLifeAt this c')"
  using assms by (simp add: hasLifeAt_toggleCell_same hasLifeAt_toggleCell_other)

theorem toggleCell_flips_only_target_witness:
  "distinctCoords placeholderField \<and>
   \<not> hasLifeAt placeholderField \<lparr> x = 0, y = 0 \<rparr> \<and>
   hasLifeAt (toggleCell placeholderField \<lparr> x = 0, y = 0 \<rparr>) \<lparr> x = 0, y = 0 \<rparr> \<and>
   coordsOf \<lparr> x = 1, y = 0 \<rparr> \<noteq> coordsOf \<lparr> x = 0, y = 0 \<rparr> \<and>
   hasLifeAt (toggleCell placeholderField \<lparr> x = 0, y = 0 \<rparr>) \<lparr> x = 1, y = 0 \<rparr> =
     hasLifeAt placeholderField \<lparr> x = 1, y = 0 \<rparr>"
proof -
  have dead: "\<not> hasLifeAt placeholderField \<lparr> x = 0, y = 0 \<rparr>"
    by (simp add: hasLifeAt_iff placeholderField_def PlayingField_new_def)
  have other: "coordsOf \<lparr> x = 1, y = 0 \<rparr> \<noteq> coordsOf \<lparr> x = 0, y = 0 \<rparr>"
    by (simp add: coordsOf_def)
  from toggleCell_flips_only_target [OF distinctCoords_placeholderField,
      of "\<lparr> x = 0, y = 0 \<rparr>" "\<lparr> x = 1, y = 0 \<rparr>"] dead other
  show ?thesis using distinctCoords_placeholderField by blast
qed

text \<open>
  Claim C9: on a field with pairwise distinct coordinates, \<^verbatim>\<open>toggleCell(c)\<close> twice in
  succession gives back the live-cell set: \<^verbatim>\<open>hasLifeAt\<close> answers at every coordinate as it
  did before the first call.
\<close>

theorem toggleCell_twice_restores_life:
  assumes "distinctCoords this"
  shows "hasLifeAt (toggleCell (toggleCell this c) c) c' = hasLifeAt this c' \<and>
         liveSet (toggleCell (toggleCell this c) c) = liveSet this"
  using assms by (simp add: liveSet_def hasLifeAt_toggleCell_twice)

theorem toggleCell_twice_restores_life_witness:
  "distinctCoords mixedField \<and>
   hasLifeAt (toggleCell (toggleCell mixedField \<lparr> x = 1, y = 1 \<rparr>) \<lparr> x = 1, y = 1 \<rparr>)
       \<lparr> x = 1, y = 1 \<rparr> = hasLifeAt mixedField \<lparr> x = 1, y = 1 \<rparr> \<and>
   liveSet (toggleCell (toggleCell mixedField \<lparr> x = 1, y = 1 \<rparr>) \<lparr> x = 1, y = 1 \<rparr>) =
     liveSet mixedField"
  using distinctCoords_mixedField
    toggleCell_twice_restores_life [OF distinctCoords_mixedField,
      of "\<lparr> x = 1, y = 1 \<rparr>" "\<lparr> x = 1, y = 1 \<rparr>"]
  by (rule conjI)

section \<open>Cloning and shared cells\<close>

text \<open>
  On a single field whose array holds no cell object twice, the methods on the store
  compute what the methods of the pure model compute on the field's cells.
\<close>

lemma findCellAt_found_index:
  assumes "findCellAt v c \<noteq> - 1"
  shows "\<exists>n < length (cells v). findCellAt v c = int n"
proof -
  from assms have "hasCellAt v c" using findCellAt_absent by blast
  from findCellAt_present [OF this] show ?thesis by blast
qed

lemma cells_fieldValue:
  "cells (fieldValue st this) = map (\<lambda>r. objs st ! r) (arrs st ! (flds st ! this))"
  by (simp add: fieldValue_def)

lemma map_deref_update:
  assumes "distinct rs" and "n < length rs"
  shows "map (\<lambda>r. os[rs ! n := v] ! r) rs = (map (\<lambda>r. os ! r) rs)[n := os[rs ! n := v] ! (rs ! n)]"
proof (rule nth_equalityI)
  show "length (map (\<lambda>r. os[rs ! n := v] ! r) rs) =
        length ((map (\<lambda>r. os ! r) rs)[n := os[rs ! n := v] ! (rs ! n)])"
    by simp
next
  fix m assume "m < length (map (\<lambda>r. os[rs ! n := v] ! r) rs)"
  then have m: "m < length rs" by simp
  show "map (\<lambda>r. os[rs ! n := v] ! r) rs ! m =
        (map (\<lambda>r. os ! r) rs)[n := os[rs ! n := v] ! (rs ! n)] ! m"
  proof (cases "m = n")
    case True
    with m show ?thesis by simp
  next
    case False
    with assms m have "rs ! m \<noteq> rs ! n" by (simp add: nth_eq_iff_index_eq)
    with False m show ?thesis by simp
  qed
qed

lemma fieldValue_addLifeAt_s:
  assumes "validField st this"
  shows "fieldValue (addLifeAt_s this c st) this = addLifeAt (fieldValue st this) c"
proof -
  let ?a = "flds st ! this"
  let ?rs = "arrs st ! ?a"
  let ?v = "fieldValue st this"
  from assms have a: "?a < length (arrs st)" and valid: "\<forall>r \<in> set ?rs. r < length (objs st)"
    and dist: "distinct ?rs"
    by (simp_all add: validField_def list_all_iff)
  show ?thesis
  proof (cases "length (cells ?v) \<noteq> 0 \<and> findCellAt ?v c \<noteq> - 1")
    case True
    then obtain n where n: "n < length (cells ?v)" "findCellAt ?v c = int n"
      using findCellAt_found_index by blast
    then have n': "n < length ?rs" by (simp add: cells_fieldValue)
    then have r: "?rs ! n < length (objs st)" using valid by simp
    have "cells (fieldValue (addLifeAt_s this c st) this) =
            map (\<lambda>r. (objs st)[?rs ! n := (objs st ! (?rs ! n))\<lparr> hasLife := True \<rparr>] ! r) ?rs"
      using True n by (simp add: addLifeAt_s_def Let_def cells_fieldValue)
    also have "\<dots> = (map (\<lambda>r. objs st ! r) ?rs)
                        [n := (objs st ! (?rs ! n))\<lparr> hasLife := True \<rparr>]"
      using r by (simp add: map_deref_update [OF dist n'])
    also have "\<dots> = cells (addLifeAt ?v c)"
      using True n n' by (simp add: addLifeAt_def cells_fieldValue)
    finally show ?thesis by simp
  next
    case False
    have "map (\<lambda>r. (objs st @ [\<lparr> x = x c, y = y c, hasLife = True \<rparr>]) ! r) ?rs =
          map (\<lambda>r. objs st ! r) ?rs"
      using valid by (simp add: nth_append)
    then have "cells (fieldValue (addLifeAt_s this c st) this) =
            map (\<lambda>r. objs st ! r) ?rs @ [\<lparr> x = x c, y = y c, hasLife = True \<rparr>]"
      using False a by (auto simp: addLifeAt_s_def Let_def cells_fieldValue)
    also have "\<dots> = cells (addLifeAt ?v c)"
      using False by (auto simp: addLifeAt_def cells_fieldValue)
    finally show ?thesis by simp
  qed
qed

lemma array_splice_map: "array_splice i d (map f xs) = map f (array_splice i d xs)"
  by (simp add: array_splice_def Let_def take_map drop_map)

lemma fieldValue_killLifeAt_s:
  assumes "validField st this"
  shows "fieldValue (killLifeAt_s this c st) this = killLifeAt (fieldValue st this) c"
proof -
  from assms have a: "flds st ! this < length (arrs st)" by (simp add: validField_def)
  then have "cells (fieldValue (killLifeAt_s this c st) this) = cells (killLifeAt (fieldValue st this) c)"
    by (simp add: killLifeAt_s_def killLifeAt_def Let_def cells_fieldValue array_splice_map)
  then show ?thesis by simp
qed

lemma fieldValue_toggleCell_s:
  "validField st this \<Longrightarrow>
     fieldValue (toggleCell_s this c st) this = toggleCell (fieldValue st this) c"
  by (simp add: toggleCell_s_def toggleCell_def fieldValue_addLifeAt_s fieldValue_killLifeAt_s)

lemma killLifeAt_s_frame:
  "flds st ! g \<noteq> flds st ! f \<Longrightarrow> fieldValue (killLifeAt_s f c st) g = fieldValue st g"
  by (simp add: killLifeAt_s_def Let_def fieldValue_def)

lemma addLifeAt_s_push_frame:
  assumes "flds st ! g \<noteq> flds st ! f"
    and "list_all (\<lambda>r. r < length (objs st)) (arrs st ! (flds st ! g))"
    and "\<not> hasCellAt (fieldValue st f) c"
  shows "fieldValue (addLifeAt_s f c st) g = fieldValue st g"
proof -
  from assms(3) have "findCellAt (fieldValue st f) c = - 1" by (rule findCellAt_absent)
  moreover have "map (\<lambda>r. (objs st @ [v]) ! r) (arrs st ! (flds st ! g)) =
                 map (\<lambda>r. objs st ! r) (arrs st ! (flds st ! g))" for v
    using assms(2) by (simp add: list_all_iff nth_append)
  ultimately show ?thesis
    using assms(1) by (simp add: addLifeAt_s_def Let_def fieldValue_def)
qed

lemma getClone_s_shares:
  assumes "this < length (flds st)" and "flds st ! this < length (arrs st)"
  shows "fst (getClone_s this st) \<noteq> this \<and>
         flds (snd (getClone_s this st)) ! fst (getClone_s this st) \<noteq>
           flds (snd (getClone_s this st)) ! this \<and>
         arrs (snd (getClone_s this st)) ! (flds (snd (getClone_s this st)) ! fst (getClone_s this st)) =
           arrs (snd (getClone_s this st)) ! (flds (snd (getClone_s this st)) ! this) \<and>
         objs (snd (getClone_s this st)) = objs st"
  using assms
  by (simp add: getClone_s_def getCells_s_def PlayingField_new_s_def nth_append)

lemma cloneScenario_eval:
  "fieldF = 0 \<and> fieldG = 1 \<and>
   storeG = \<lparr> objs = [\<lparr> x = 0, y = 0, hasLife = False \<rparr>], arrs = [[0], [0]], flds = [0, 1] \<rparr>"
  by (simp add: fieldF_def fieldG_def storeF_def storeG_def loadedStore_def
        PlayingField_new_s_def getClone_s_def getCells_s_def)

text \<open>
  Claim C6 says that \<^verbatim>\<open>getClone\<close> gives an independent deep copy, so that no mutator on
  \<open>f\<close> changes what the clone \<open>g\<close> stores.  The code copies the array only: here \<open>g\<close> stores
  a lifeless cell at \<open>(0, 0)\<close> before \<open>f.toggleCell({x: 0, y: 0})\<close> and an alive one after
  it, and \<open>g.hasLifeAt({x: 0, y: 0})\<close> turns from false to true.
\<close>

theorem getClone_shares_cell_objects:
  "fieldValue storeG fieldG = \<lparr> cells = [\<lparr> x = 0, y = 0, hasLife = False \<rparr>] \<rparr> \<and>
   fieldValue storeToggled fieldG = \<lparr> cells = [\<lparr> x = 0, y = 0, hasLife = True \<rparr>] \<rparr> \<and>
   \<not> hasLifeAt (fieldValue storeG fieldG) \<lparr> x = 0, y = 0 \<rparr> \<and>
   hasLifeAt (fieldValue storeToggled fieldG) \<lparr> x = 0, y = 0 \<rparr>"
  unfolding storeToggled_def cloneScenario_eval [THEN conjunct1]
    cloneScenario_eval [THEN conjunct2, THEN conjunct1]
    cloneScenario_eval [THEN conjunct2, THEN conjunct2]
  by code_simp

end
